theory Spec2Isabelle
  imports Main
begin

section \<open>Strings, Unicode data and errors\<close>

text \<open>
  A Python \<open>str\<close> is a sequence of Unicode code points, so a string is a list of
  code points (natural numbers); \<open>len\<close> is \<open>length\<close>. ASCII literals are written
  through \<open>ustr\<close>.
\<close>

type_synonym str = "nat list"

definition ustr :: "string \<Rightarrow> str" where
  "ustr s = map of_char s"

text \<open>
  The Unicode character database behind \<open>unicodedata.normalize("NFKD", _)\<close>,
  \<open>unicodedata.combining\<close> and the non-ASCII part of \<open>str.upper\<close> belongs to the
  Python runtime, not to the provider: it is a parameter of the model.
\<close>

record unicode =
  nfkd :: "str \<Rightarrow> str"
  combining :: "nat \<Rightarrow> nat"
  upper_nonascii :: "nat \<Rightarrow> str"

text \<open>
  A fragment of the Unicode data that is enough to run the examples: U+00FC decomposes
  into \<open>u\<close> followed by U+0308 (combining diaeresis, class 230); every other code point
  is left alone.
\<close>

definition ucd_fragment :: unicode where
  "ucd_fragment =
     \<lparr> nfkd = (\<lambda>s. concat (map (\<lambda>c. if c = 252 then [117, 776] else [c]) s)),
       combining = (\<lambda>c. if c = 776 then 230 else 0),
       upper_nonascii = (\<lambda>c. [c]) \<rparr>"

datatype error = KeyError

subsection \<open>The string methods the provider calls\<close>

text \<open>\<open>str.upper\<close>: code point by code point; ASCII \<open>a\<close>..\<open>z\<close> move down by 32.\<close>

definition upper_char :: "unicode \<Rightarrow> nat \<Rightarrow> str" where
  "upper_char U c =
     (if 97 \<le> c \<and> c \<le> 122 then [c - 32]
      else if c < 128 then [c]
      else upper_nonascii U c)"

definition upper :: "unicode \<Rightarrow> str \<Rightarrow> str" where
  "upper U s = concat (map (upper_char U) s)"

text \<open>
  \<open>s.replace(old, new)\<close>: every non-overlapping occurrence of \<open>old\<close>, from the left.
  With an empty \<open>old\<close>, Python puts \<open>new\<close> before every character and at the end.
\<close>

function replace_py :: "str \<Rightarrow> str \<Rightarrow> str \<Rightarrow> str" where
  "replace_py old new [] = (if old = [] then new else [])"
| "replace_py old new (c # cs) =
     (if old = [] then new @ c # replace_py old new cs
      else if take (length old) (c # cs) = old
        then new @ replace_py old new (drop (length old) (c # cs))
      else c # replace_py old new cs)"
  by pat_completeness auto
termination
  by (relation "measure (\<lambda>(old, new, s). length s)") auto

text \<open>\<open>s.ljust(n, fill)\<close> and \<open>s.rjust(n, fill)\<close>.\<close>

definition ljust :: "nat \<Rightarrow> nat \<Rightarrow> str \<Rightarrow> str" where
  "ljust n fill s = s @ replicate (n - length s) fill"

definition rjust :: "nat \<Rightarrow> nat \<Rightarrow> str \<Rightarrow> str" where
  "rjust n fill s = replicate (n - length s) fill @ s"

text \<open>\<open>str(n)\<close> for a Python integer: decimal digits, with a minus sign below zero.\<close>

function digits :: "nat \<Rightarrow> str" where
  "digits n = (if n < 10 then [48 + n] else digits (n div 10) @ [48 + n mod 10])"
  by pat_completeness auto
termination
  by (relation "measure (\<lambda>n. n)") auto

declare digits.simps [simp del]

definition str_int :: "int \<Rightarrow> str" where
  "str_int n = (if n < 0 then 45 # digits (nat (- n)) else digits (nat n))"

text \<open>The slice \<open>s[-2:]\<close>: the last two characters, or all of \<open>s\<close> when it is shorter.\<close>

definition last2 :: "str \<Rightarrow> str" where
  "last2 s = drop (length s - 2) s"

text \<open>The character classes of the three regular expressions.\<close>

definition is_AZ :: "nat \<Rightarrow> bool" where
  "is_AZ c \<longleftrightarrow> 65 \<le> c \<and> c \<le> 90"

definition is_digit :: "nat \<Rightarrow> bool" where
  "is_digit c \<longleftrightarrow> 48 \<le> c \<and> c \<le> 57"

definition is_AEIOU :: "nat \<Rightarrow> bool" where
  "is_AEIOU c \<longleftrightarrow> c \<in> set (ustr ''AEIOU'')"

section \<open>The name quartet\<close>

definition normalize_name :: "unicode \<Rightarrow> str \<Rightarrow> str" where
  "normalize_name U name = filter (\<lambda>char. combining U char = 0) (nfkd U name)"

definition prefixes :: "str list" where
  "prefixes = [ustr ''de '', ustr ''von '', ustr ''zu '']"

text \<open>
  The loop \<open>for vowel in reversed(vowels): result += vowel; if len(result) == 4: break\<close>,
  over the vowels still to visit.
\<close>

fun append_vowels :: "str \<Rightarrow> str \<Rightarrow> str" where
  "append_vowels result [] = result"
| "append_vowels result (vowel # rest) =
     (let result' = result @ [vowel]
      in if length result' = 4 then result' else append_vowels result' rest)"

text \<open>
  The loop over the prefixes evaluates \<open>_name.replace(prefix, "")\<close> as an expression
  statement: the new string is computed and dropped, \<open>_name\<close> stays bound to the old one.
\<close>

definition strip_prefixes :: "str \<Rightarrow> str" where
  "strip_prefixes name =
     foldl (\<lambda>nm prefix. let discarded = replace_py prefix [] nm in nm) name prefixes"

definition etin_name_quartet :: "unicode \<Rightarrow> str \<Rightarrow> str" where
  "etin_name_quartet U name =
     (let n1 = normalize_name U name;
          n2 = replace_py (ustr ''Sch'') (ustr ''Y'') n1;
          n3 = strip_prefixes n2;
          n4 = upper U n3;
          n5 = filter is_AZ n4;
          consonants = filter (\<lambda>c. \<not> is_AEIOU c) n5;
          vowels = filter is_AEIOU n5;
          result = take 4 consonants;
          result = (if length result < 4 then append_vowels result (rev vowels) else result)
      in ljust 4 88 result)"

text \<open>
  The letters the quartet is built from: the name after normalisation, the \<open>Sch\<close>
  substitution, upper-casing and the removal of everything outside \<open>A\<close>..\<open>Z\<close>.
\<close>

definition name_letters :: "unicode \<Rightarrow> str \<Rightarrow> str" where
  "name_letters U name =
     filter is_AZ (upper U (replace_py (ustr ''Sch'') (ustr ''Y'') (normalize_name U name)))"

text \<open>
  For comparison only: the pipeline without the prefix loop, and the pipeline in which
  the loop assigns its result (\<open>_name = _name.replace(prefix, "")\<close>), which is what the
  comment in the source announces.
\<close>

definition etin_name_quartet_no_strip :: "unicode \<Rightarrow> str \<Rightarrow> str" where
  "etin_name_quartet_no_strip U name =
     (let n1 = normalize_name U name;
          n2 = replace_py (ustr ''Sch'') (ustr ''Y'') n1;
          n4 = upper U n2;
          n5 = filter is_AZ n4;
          consonants = filter (\<lambda>c. \<not> is_AEIOU c) n5;
          vowels = filter is_AEIOU n5;
          result = take 4 consonants;
          result = (if length result < 4 then append_vowels result (rev vowels) else result)
      in ljust 4 88 result)"

definition etin_name_quartet_stripping :: "unicode \<Rightarrow> str \<Rightarrow> str" where
  "etin_name_quartet_stripping U name =
     (let n1 = normalize_name U name;
          n2 = replace_py (ustr ''Sch'') (ustr ''Y'') n1;
          n3 = foldl (\<lambda>nm prefix. replace_py prefix [] nm) n2 prefixes;
          n4 = upper U n3;
          n5 = filter is_AZ n4;
          consonants = filter (\<lambda>c. \<not> is_AEIOU c) n5;
          vowels = filter is_AEIOU n5;
          result = take 4 consonants;
          result = (if length result < 4 then append_vowels result (rev vowels) else result)
      in ljust 4 88 result)"

section \<open>The check character\<close>

definition table_of :: "(char \<times> int) list \<Rightarrow> (nat \<rightharpoonup> int)" where
  "table_of kvs = map_of (map (\<lambda>(k, v). (of_char k, v)) kvs)"

definition even_table :: "nat \<rightharpoonup> int" where
  "even_table = table_of
     [(CHR ''A'', 0), (CHR ''B'', 1), (CHR ''C'', 2), (CHR ''D'', 3), (CHR ''E'', 4),
      (CHR ''F'', 5), (CHR ''G'', 6), (CHR ''H'', 7), (CHR ''I'', 8), (CHR ''J'', 9),
      (CHR ''K'', 10), (CHR ''L'', 11), (CHR ''M'', 12), (CHR ''N'', 13), (CHR ''O'', 14),
      (CHR ''P'', 15), (CHR ''Q'', 16), (CHR ''R'', 17), (CHR ''S'', 18), (CHR ''T'', 19),
      (CHR ''U'', 20), (CHR ''V'', 21), (CHR ''W'', 22), (CHR ''X'', 23), (CHR ''Y'', 24),
      (CHR ''Z'', 25),
      (CHR ''0'', 0), (CHR ''1'', 1), (CHR ''2'', 2), (CHR ''3'', 3), (CHR ''4'', 4),
      (CHR ''5'', 5), (CHR ''6'', 6), (CHR ''7'', 7), (CHR ''8'', 8), (CHR ''9'', 9)]"

definition odd_table :: "nat \<rightharpoonup> int" where
  "odd_table = table_of
     [(CHR ''A'', 1), (CHR ''B'', 0), (CHR ''C'', 5), (CHR ''D'', 7), (CHR ''E'', 9),
      (CHR ''F'', 13), (CHR ''G'', 15), (CHR ''H'', 17), (CHR ''I'', 19), (CHR ''J'', 21),
      (CHR ''K'', 2), (CHR ''L'', 4), (CHR ''M'', 18), (CHR ''N'', 20), (CHR ''O'', 11),
      (CHR ''P'', 3), (CHR ''Q'', 6), (CHR ''R'', 8), (CHR ''S'', 12), (CHR ''T'', 14),
      (CHR ''U'', 16), (CHR ''V'', 10), (CHR ''W'', 22), (CHR ''X'', 23), (CHR ''Y'', 24),
      (CHR ''Z'', 25),
      (CHR ''0'', 1), (CHR ''1'', 0), (CHR ''2'', 5), (CHR ''3'', 7), (CHR ''4'', 9),
      (CHR ''5'', 13), (CHR ''6'', 15), (CHR ''7'', 17), (CHR ''8'', 19), (CHR ''9'', 21)]"

text \<open>A dictionary lookup raises \<open>KeyError\<close> on a missing key.\<close>

definition etin_check_weight :: "nat \<Rightarrow> nat \<Rightarrow> error + int" where
  "etin_check_weight position v =
     (let index = (if position mod 2 = 0 then 0 else 1 :: nat)
      in case ([even_table, odd_table] ! index) v of
           None \<Rightarrow> Inl KeyError
         | Some w \<Rightarrow> Inr w)"

text \<open>The loop \<open>for index, character in enumerate(etin_stub): _sum += ...\<close>.\<close>

fun check_sum :: "nat \<Rightarrow> int \<Rightarrow> str \<Rightarrow> error + int" where
  "check_sum index s [] = Inr s"
| "check_sum index s (character # rest) =
     (case etin_check_weight index character of
        Inl e \<Rightarrow> Inl e
      | Inr w \<Rightarrow> check_sum (Suc index) (s + w) rest)"

definition ascii_uppercase :: str where
  "ascii_uppercase = ustr ''ABCDEFGHIJKLMNOPQRSTUVWXYZ''"

definition etin_check_character :: "str \<Rightarrow> error + str" where
  "etin_check_character etin_stub =
     (case check_sum 0 0 etin_stub of
        Inl e \<Rightarrow> Inl e
      | Inr s \<Rightarrow> (let mod_26 = s mod 26 in Inr [ascii_uppercase ! nat mod_26]))"

section \<open>The eTIN\<close>

record date =
  year :: int
  month :: int
  day :: int

text \<open>What \<open>datetime.date\<close> accepts for the three fields (the day within 1..31).\<close>

definition date_fields_ok :: "date \<Rightarrow> bool" where
  "date_fields_ok d \<longleftrightarrow>
     1 \<le> year d \<and> year d \<le> 9999 \<and> 1 \<le> month d \<and> month d \<le> 12 \<and> 1 \<le> day d \<and> day d \<le> 31"

definition MONTH_LETTER :: "int \<rightharpoonup> str" where
  "MONTH_LETTER = map_of
     [(1, ustr ''A''), (2, ustr ''B''), (3, ustr ''C''), (4, ustr ''D''),
      (5, ustr ''E''), (6, ustr ''F''), (7, ustr ''G''), (8, ustr ''H''),
      (9, ustr ''I''), (10, ustr ''J''), (11, ustr ''K''), (12, ustr ''L'')]"

text \<open>
  The local \<open>_etin\<close>: the f-string evaluates its fields from left to right, so the
  only failure is the lookup of the month.
\<close>

definition etin_stub :: "unicode \<Rightarrow> str \<Rightarrow> str \<Rightarrow> date \<Rightarrow> error + str" where
  "etin_stub U first_name last_name birthday =
     (let q_last = etin_name_quartet U last_name;
          q_first = etin_name_quartet U first_name;
          yy = last2 (str_int (year birthday))
      in case MONTH_LETTER (month birthday) of
           None \<Rightarrow> Inl KeyError
         | Some letter \<Rightarrow>
             Inr (upper U (q_last @ q_first @ yy @ letter @ rjust 2 48 (str_int (day birthday)))))"

definition etin_of :: "unicode \<Rightarrow> str \<Rightarrow> str \<Rightarrow> date \<Rightarrow> error + str" where
  "etin_of U first_name last_name birthday =
     (case etin_stub U first_name last_name birthday of
        Inl e \<Rightarrow> Inl e
      | Inr stub \<Rightarrow>
          (case etin_check_character stub of
             Inl e \<Rightarrow> Inl e
           | Inr c \<Rightarrow> Inr (stub @ c)))"

text \<open>
  \<open>self.generator\<close>: the collaborators that supply a missing argument. Each one reads
  and advances the random state \<open>'g\<close>.
\<close>

record 'g generator =
  gen_first_name :: "'g \<Rightarrow> str \<times> 'g"
  gen_last_name :: "'g \<Rightarrow> str \<times> 'g"
  gen_date_of_birth :: "'g \<Rightarrow> date \<times> 'g"

definition etin ::
  "unicode \<Rightarrow> 'g generator \<Rightarrow> str option \<Rightarrow> str option \<Rightarrow> date option \<Rightarrow> 'g
     \<Rightarrow> (error + str) \<times> 'g" where
  "etin U G first_name last_name birthday g0 =
     (let (fn, g1) = (case first_name of None \<Rightarrow> gen_first_name G g0 | Some n \<Rightarrow> (n, g0));
          (ln, g2) = (case last_name of None \<Rightarrow> gen_last_name G g1 | Some n \<Rightarrow> (n, g1));
          (bd, g3) = (case birthday of None \<Rightarrow> gen_date_of_birth G g2 | Some d \<Rightarrow> (d, g2))
      in (etin_of U fn ln bd, g3))"

text \<open>The characters a well-formed stub is made of: \<open>A\<close>..\<open>Z\<close> and \<open>0\<close>..\<open>9\<close>.\<close>

definition stub_char :: "nat \<Rightarrow> bool" where
  "stub_char c \<longleftrightarrow> is_AZ c \<or> is_digit c"

text \<open>Inputs for the worked examples: the name \<open>M\<close> U+00FC \<open>ller\<close> and a generator.\<close>

definition muller :: str where
  "muller = [77, 252, 108, 108, 101, 114]"

definition sample_generator :: "nat generator" where
  "sample_generator =
     \<lparr> gen_first_name = (\<lambda>g. (ustr ''Erika'', Suc g)),
       gen_last_name = (\<lambda>g. (ustr ''Mustermann'', Suc g)),
       gen_date_of_birth = (\<lambda>g. (\<lparr>year = 1964, month = 8, day = 12\<rparr>, Suc g)) \<rparr>"

section \<open>The VAT identifier\<close>

text \<open>
  The random source of the base provider: a decimal digit, and an index below a given
  bound. Each draw reads and advances the random state \<open>'g\<close>.
\<close>

record 'g base_provider =
  random_digit :: "'g \<Rightarrow> nat \<times> 'g"
  random_index :: "nat \<Rightarrow> 'g \<Rightarrow> nat \<times> 'g"

definition provider_ok :: "'g base_provider \<Rightarrow> bool" where
  "provider_ok P \<longleftrightarrow>
     (\<forall>g. fst (random_digit P g) < 10) \<and> (\<forall>n g. 0 < n \<longrightarrow> fst (random_index P n g) < n)"

text \<open>
  Modelled from the spec: \<open>random_element\<close> of the base provider, which is not part of
  the source at hand. It returns one element of a non-empty sequence, chosen by the
  random source.
\<close>

definition random_element :: "'g base_provider \<Rightarrow> 'a list \<Rightarrow> 'g \<Rightarrow> 'a \<times> 'g" where
  "random_element P xs g = (let (i, g1) = random_index P (length xs) g in (xs ! i, g1))"

text \<open>
  Modelled from the spec: \<open>bothify\<close> of the base provider, which is not part of the
  source at hand; the spec calls it the random-digit pattern filler. Every \<open>#\<close> of the
  pattern becomes a decimal digit drawn from the random source, from left to right; the
  other characters of the pattern are kept (the only pattern in use, \<open>DE#########\<close>,
  has no other placeholder).
\<close>

fun bothify :: "'g base_provider \<Rightarrow> str \<Rightarrow> 'g \<Rightarrow> str \<times> 'g" where
  "bothify P [] g = ([], g)"
| "bothify P (c # cs) g =
     (if c = 35
      then (let (d, g1) = random_digit P g;
                (r, g2) = bothify P cs g1
            in ((48 + d) # r, g2))
      else (let (r, g1) = bothify P cs g in (c # r, g1)))"

definition vat_id_formats :: "str list" where
  "vat_id_formats = [ustr ''DE#########'']"

definition vat_id :: "'g base_provider \<Rightarrow> 'g \<Rightarrow> str \<times> 'g" where
  "vat_id P g = (let (fmt, g1) = random_element P vat_id_formats g in bothify P fmt g1)"

text \<open>
  A random source that replays a given list of digits: the state is the list of the
  digits still to come.
\<close>

definition replay_provider :: "nat list base_provider" where
  "replay_provider =
     \<lparr> random_digit = (\<lambda>g. case g of [] \<Rightarrow> (0, []) | d # ds \<Rightarrow> (d mod 10, ds)),
       random_index = (\<lambda>n g. (0, g)) \<rparr>"

section \<open>Properties of the name quartet\<close>

lemma append_vowels_take:
  "length r < 4 \<Longrightarrow> append_vowels r vs = r @ take (4 - length r) vs"
proof (induction vs arbitrary: r)
  case Nil
  then show ?case by simp
next
  case (Cons v vs)
  show ?case
  proof (cases "length r = 3")
    case True
    then show ?thesis by (simp add: Let_def)
  next
    case False
    with Cons.prems have "length (r @ [v]) < 4" by simp
    from Cons.IH [OF this] False Cons.prems show ?thesis
      by (simp add: Let_def Suc_diff_le take_Cons')
  qed
qed

lemma strip_prefixes_id: "strip_prefixes name = name"
  by (simp add: strip_prefixes_def prefixes_def Let_def)

lemma quartet_letters:
  "etin_name_quartet U name =
     (let cs = filter (\<lambda>c. \<not> is_AEIOU c) (name_letters U name);
          vs = filter is_AEIOU (name_letters U name);
          r7 = take 4 cs;
          r8 = r7 @ take (4 - length r7) (rev vs)
      in r8 @ replicate (4 - length r8) 88)"
  by (simp add: etin_name_quartet_def name_letters_def strip_prefixes_id Let_def ljust_def
      append_vowels_take)

lemma is_AZ_X: "is_AZ 88"
  by (simp add: is_AZ_def)

lemma name_letters_AZ: "c \<in> set (name_letters U name) \<Longrightarrow> is_AZ c"
  by (simp add: name_letters_def)

lemma quartet_length: "length (etin_name_quartet U name) = 4"
  by (simp add: quartet_letters Let_def)

lemma quartet_AZ: "c \<in> set (etin_name_quartet U name) \<Longrightarrow> is_AZ c"
  by (auto simp: quartet_letters Let_def is_AZ_X dest!: in_set_takeD dest: name_letters_AZ)

text \<open>
  C1. The quartet is the first four consonants of the filtered upper-cased name, then
  (when fewer than four) the vowels read from the last one backwards until the length is
  four, then \<open>X\<close> up to length four. It always has exactly four characters, all in
  \<open>A\<close>..\<open>Z\<close>, and a name without any letter gives \<open>XXXX\<close>.
\<close>

theorem quartet_spec:
  "etin_name_quartet U name =
     (let cs = filter (\<lambda>c. \<not> is_AEIOU c) (name_letters U name);
          vs = filter is_AEIOU (name_letters U name);
          r7 = take 4 cs;
          r8 = r7 @ take (4 - length r7) (rev vs)
      in r8 @ replicate (4 - length r8) 88)
   \<and> length (etin_name_quartet U name) = 4
   \<and> (\<forall>c \<in> set (etin_name_quartet U name). is_AZ c)
   \<and> (name_letters U name = [] \<longrightarrow> etin_name_quartet U name = ustr ''XXXX'')"
proof (intro conjI)
  show "length (etin_name_quartet U name) = 4"
    by (rule quartet_length)
  show "\<forall>c \<in> set (etin_name_quartet U name). is_AZ c"
    by (blast dest: quartet_AZ)
  show "name_letters U name = [] \<longrightarrow> etin_name_quartet U name = ustr ''XXXX''"
    by (simp add: quartet_letters Let_def ustr_def numeral_eq_Suc)
qed (rule quartet_letters)

lemma name_letters_42: "name_letters ucd_fragment (ustr ''42'') = []"
  by (simp add: name_letters_def ucd_fragment_def ustr_def normalize_name_def upper_def
      upper_char_def is_AZ_def)

theorem quartet_spec_witness:
  "name_letters ucd_fragment (ustr ''42'') = []
   \<and> etin_name_quartet ucd_fragment (ustr ''42'') = ustr ''XXXX''
   \<and> length (etin_name_quartet ucd_fragment (ustr ''42'')) = 4"
proof -
  note spec = quartet_spec [of ucd_fragment "ustr ''42''"]
  from spec have len: "length (etin_name_quartet ucd_fragment (ustr ''42'')) = 4"
    by (elim conjE)
  from spec have imp: "name_letters ucd_fragment (ustr ''42'') = []
      \<longrightarrow> etin_name_quartet ucd_fragment (ustr ''42'') = ustr ''XXXX''"
    by (elim conjE)
  from len imp name_letters_42 show ?thesis
    by blast
qed

section \<open>Properties of the check character\<close>

lemma stub_char_cases:
  "stub_char c \<Longrightarrow> c \<in> set [48..<58] \<union> set [65..<91]"
  unfolding set_upt by (auto simp: stub_char_def is_AZ_def is_digit_def)

lemma even_table_total: "stub_char c \<Longrightarrow> \<exists>w. even_table c = Some w"
  by (drule stub_char_cases) (auto simp: even_table_def table_of_def)

lemma odd_table_total: "stub_char c \<Longrightarrow> \<exists>w. odd_table c = Some w"
  by (drule stub_char_cases) (auto simp: odd_table_def table_of_def)

lemma ascii_uppercase_nth:
  assumes "n < 26"
  shows "ascii_uppercase ! n = 65 + n"
proof -
  have eq: "ascii_uppercase = map (\<lambda>n. 65 + n) [0..<26]"
    by (simp add: ascii_uppercase_def ustr_def upt_rec)
  have "map (\<lambda>n. 65 + n) [0..<26] ! n = 65 + (0 + n)"
    by (rule nth_map_upt) (use assms in simp)
  then show ?thesis
    by (simp only: eq add_0)
qed

lemma check_weight_total:
  "stub_char c \<Longrightarrow>
     \<exists>w. (if even i then even_table else odd_table) c = Some w \<and> etin_check_weight i c = Inr w"
  using even_table_total [of c] odd_table_total [of c]
  by (auto simp: etin_check_weight_def Let_def even_iff_mod_2_eq_zero)

lemma check_sum_total:
  "\<forall>c \<in> set xs. stub_char c \<Longrightarrow>
     \<exists>ws. length ws = length xs
       \<and> (\<forall>k < length xs. (if even (i + k) then even_table else odd_table) (xs ! k) = Some (ws ! k))
       \<and> check_sum i s xs = Inr (s + sum_list ws)"
proof (induction xs arbitrary: i s)
  case Nil
  then show ?case by simp
next
  case (Cons x xs)
  from Cons.prems have "stub_char x" by simp
  from check_weight_total [OF this, of i] obtain w where
    w: "(if even i then even_table else odd_table) x = Some w" "etin_check_weight i x = Inr w"
    by blast
  from Cons.prems have "\<forall>c \<in> set xs. stub_char c" by simp
  from Cons.IH [OF this, of "Suc i" "s + w"] obtain ws where
    ws: "length ws = length xs"
      "\<forall>k < length xs. (if even (Suc i + k) then even_table else odd_table) (xs ! k) = Some (ws ! k)"
      "check_sum (Suc i) (s + w) xs = Inr (s + w + sum_list ws)"
    by blast
  have "\<forall>k < length (x # xs).
          (if even (i + k) then even_table else odd_table) ((x # xs) ! k) = Some ((w # ws) ! k)"
  proof (intro allI impI)
    fix k assume "k < length (x # xs)"
    then show "(if even (i + k) then even_table else odd_table) ((x # xs) ! k) = Some ((w # ws) ! k)"
      using w(1) ws(2) by (cases k) auto
  qed
  moreover have "check_sum i s (x # xs) = Inr (s + sum_list (w # ws))"
    using w(2) ws(3) by (simp add: add.assoc)
  moreover have "length (w # ws) = length (x # xs)"
    using ws(1) by simp
  ultimately show ?case by blast
qed

text \<open>
  C2. On a stub of 13 characters out of \<open>A\<close>..\<open>Z\<close> and \<open>0\<close>..\<open>9\<close> the check
  character is computed without error: every position \<open>i\<close> has a weight, taken from the
  even table when \<open>i\<close> is even and from the odd table otherwise, and the result is the
  letter number (sum of the 13 weights) mod 26, counting \<open>A\<close> as 0.
\<close>

theorem check_character_spec:
  assumes "length stub = 13" and "\<forall>c \<in> set stub. is_AZ c \<or> is_digit c"
  shows "\<exists>ws. length ws = 13
     \<and> (\<forall>i < 13. (if even i then even_table else odd_table) (stub ! i) = Some (ws ! i))
     \<and> etin_check_character stub = Inr [65 + nat (sum_list ws mod 26)]"
proof -
  from assms(2) have "\<forall>c \<in> set stub. stub_char c" by (simp add: stub_char_def)
  from check_sum_total [OF this, of 0 0] assms(1) obtain ws where
    ws: "length ws = 13"
      "\<forall>k < 13. (if even k then even_table else odd_table) (stub ! k) = Some (ws ! k)"
      "check_sum 0 0 stub = Inr (sum_list ws)"
    by auto
  have "nat (sum_list ws mod 26) < 26" by simp
  then have "etin_check_character stub = Inr [65 + nat (sum_list ws mod 26)]"
    using ws(3) by (simp add: etin_check_character_def Let_def ascii_uppercase_nth)
  with ws(1,2) show ?thesis by blast
qed


theorem check_character_spec_witness:
  "length (ustr ''MLLRHNSA87C05'') = 13
   \<and> (\<exists>ws. length ws = 13
        \<and> etin_check_character (ustr ''MLLRHNSA87C05'') = Inr [65 + nat (sum_list ws mod 26)])
   \<and> etin_check_character (ustr ''MLLRHNSA87C05'') = Inr (ustr ''K'')"
proof -
  have len: "length (ustr ''MLLRHNSA87C05'') = 13"
    by (simp add: ustr_def)
  have chars: "\<forall>c \<in> set (ustr ''MLLRHNSA87C05''). is_AZ c \<or> is_digit c"
    by (simp add: ustr_def is_AZ_def is_digit_def)
  have val: "etin_check_character (ustr ''MLLRHNSA87C05'') = Inr (ustr ''K'')"
    by (simp add: etin_check_character_def etin_check_weight_def even_table_def odd_table_def
        table_of_def ascii_uppercase_def ustr_def Let_def)
  from check_character_spec [OF len chars] len val show ?thesis
    by blast
qed

section \<open>Properties of the eTIN\<close>

subsection \<open>Upper-casing, decimal digits, the month table\<close>

lemma upper_id: "\<forall>c \<in> set s. c < 97 \<Longrightarrow> upper U s = s"
  by (induction s) (auto simp: upper_def upper_char_def)

lemma digits_is_digit: "c \<in> set (digits n) \<Longrightarrow> is_digit c"
proof (induction n arbitrary: c rule: digits.induct)
  case (1 n)
  show ?case
  proof (cases "n < 10")
    case True
    with "1.prems" show ?thesis
      by (simp add: digits.simps [of n] is_digit_def)
  next
    case False
    have "n mod 10 < 10" by simp
    then have "is_digit (48 + n mod 10)"
      unfolding is_digit_def by linarith
    with False "1.prems" "1.IH" show ?thesis
      by (auto simp: digits.simps [of n])
  qed
qed

lemma digits_length_lt10: "n < 10 \<Longrightarrow> digits n = [48 + n]"
  by (simp add: digits.simps [of n])

lemma digits_length_pos: "0 < length (digits n)"
  by (simp add: digits.simps [of n])

lemma digits_length_ge10: "10 \<le> n \<Longrightarrow> 2 \<le> length (digits n)"
  using digits_length_pos [of "n div 10"] by (simp add: digits.simps [of n] Suc_le_eq)

lemma digits_length_lt100: "10 \<le> n \<Longrightarrow> n < 100 \<Longrightarrow> length (digits n) = 2"
proof -
  assume a: "10 \<le> n" "n < 100"
  then have "n div 10 < 10" by simp
  then have "digits (n div 10) = [48 + n div 10]" by (rule digits_length_lt10)
  with a show ?thesis by (simp add: digits.simps [of n])
qed

lemma last2_length: "2 \<le> length s \<Longrightarrow> length (last2 s) = 2"
  by (simp add: last2_def)

lemma last2_short: "length s < 2 \<Longrightarrow> last2 s = s"
  by (simp add: last2_def)

lemma last2_set: "c \<in> set (last2 s) \<Longrightarrow> c \<in> set s"
  by (auto simp: last2_def dest: in_set_dropD)

lemma MONTH_LETTER_in_range:
  "1 \<le> m \<Longrightarrow> m \<le> 12 \<Longrightarrow> MONTH_LETTER m = Some [nat (64 + m)]"
proof -
  assume "1 \<le> m" "m \<le> 12"
  then have "m = 1 \<or> m = 2 \<or> m = 3 \<or> m = 4 \<or> m = 5 \<or> m = 6
      \<or> m = 7 \<or> m = 8 \<or> m = 9 \<or> m = 10 \<or> m = 11 \<or> m = 12"
    by arith
  then show ?thesis
    by (elim disjE) (simp_all add: MONTH_LETTER_def ustr_def)
qed

lemma MONTH_LETTER_out_of_range:
  "m < 1 \<or> 12 < m \<Longrightarrow> MONTH_LETTER m = None"
  by (auto simp: MONTH_LETTER_def)

subsection \<open>The shape of the stub and of the result\<close>

lemma str_int_lt97: "c \<in> set (str_int n) \<Longrightarrow> c < 97"
  by (auto simp: str_int_def is_digit_def dest!: digits_is_digit split: if_splits)

lemma quartet_lt97: "c \<in> set (etin_name_quartet U name) \<Longrightarrow> c < 97"
  by (auto simp: is_AZ_def dest!: quartet_AZ)

lemma etin_stub_value:
  assumes "1 \<le> month d" and "month d \<le> 12"
  shows "etin_stub U f l d =
     Inr (etin_name_quartet U l @ etin_name_quartet U f @ last2 (str_int (year d))
          @ [nat (64 + month d)] @ rjust 2 48 (str_int (day d)))"
proof -
  let ?s = "etin_name_quartet U l @ etin_name_quartet U f @ last2 (str_int (year d))
          @ [nat (64 + month d)] @ rjust 2 48 (str_int (day d))"
  have "nat (64 + month d) < 97" using assms by simp
  then have "\<forall>c \<in> set ?s. c < 97"
    by (auto simp: rjust_def dest: quartet_lt97 str_int_lt97 last2_set)
  then have "upper U ?s = ?s" by (rule upper_id)
  then show ?thesis
    using MONTH_LETTER_in_range [OF assms]
    by (simp add: etin_stub_def Let_def)
qed

lemma etin_stub_KeyError:
  "month d < 1 \<or> 12 < month d \<Longrightarrow> etin_stub U f l d = Inl KeyError"
  by (simp add: etin_stub_def Let_def MONTH_LETTER_out_of_range)

lemma check_character_total:
  assumes "\<forall>c \<in> set s. stub_char c"
  shows "\<exists>k < 26. etin_check_character s = Inr [65 + k]"
proof -
  from check_sum_total [OF assms, of 0 0] obtain ws where
    "check_sum 0 0 s = Inr (sum_list ws)" by auto
  moreover have "nat (sum_list ws mod 26) < 26" by simp
  ultimately have "etin_check_character s = Inr [65 + nat (sum_list ws mod 26)]"
    by (simp add: etin_check_character_def Let_def ascii_uppercase_nth)
  then show ?thesis
    using \<open>nat (sum_list ws mod 26) < 26\<close> by blast
qed

lemma str_int_nonneg: "0 \<le> n \<Longrightarrow> str_int n = digits (nat n)"
  by (simp add: str_int_def)

lemma stub_chars:
  assumes "1 \<le> month d" and "month d \<le> 12" and "0 \<le> year d" and "0 \<le> day d"
  shows "\<forall>c \<in> set (etin_name_quartet U l @ etin_name_quartet U f @ last2 (str_int (year d))
          @ [nat (64 + month d)] @ rjust 2 48 (str_int (day d))). stub_char c"
proof -
  have "is_AZ (nat (64 + month d))" using assms(1,2) unfolding is_AZ_def by linarith
  moreover have "is_digit 48" by (simp add: is_digit_def)
  ultimately show ?thesis
    using assms(3,4)
    by (auto simp: stub_char_def rjust_def str_int_nonneg
        dest: quartet_AZ digits_is_digit dest!: last2_set)
qed

lemma etin_of_value:
  assumes "1 \<le> month d" and "month d \<le> 12" and "0 \<le> year d" and "0 \<le> day d"
  shows "\<exists>k < 26. etin_of U f l d =
     Inr (etin_name_quartet U l @ etin_name_quartet U f @ last2 (digits (nat (year d)))
          @ [nat (64 + month d)] @ rjust 2 48 (digits (nat (day d))) @ [65 + k])"
proof -
  from check_character_total [OF stub_chars [OF assms, of U l f]]
  obtain k where "k < 26" and
    "etin_check_character (etin_name_quartet U l @ etin_name_quartet U f @ last2 (str_int (year d))
          @ [nat (64 + month d)] @ rjust 2 48 (str_int (day d))) = Inr [65 + k]"
    by blast
  then show ?thesis
    using etin_stub_value [OF assms(1,2), of U f l] assms(3,4)
    by (auto simp: etin_of_def str_int_nonneg)
qed

lemma etin_of_round_trip:
  "etin_of U f l d = Inr e \<Longrightarrow> etin_check_character (butlast e) = Inr [last e]"
proof -
  assume a: "etin_of U f l d = Inr e"
  then obtain stub c where "etin_check_character stub = Inr c" and "e = stub @ c"
    by (auto simp: etin_of_def split: sum.splits)
  moreover from this obtain x where "c = [x]"
    by (auto simp: etin_check_character_def Let_def split: sum.splits)
  ultimately show ?thesis by simp
qed

lemma etin_cases:
  "\<exists>fn ln bd. fst (etin U G fo lo bo g) = etin_of U fn ln bd
      \<and> (\<forall>d. bo = Some d \<longrightarrow> bd = d)"
  by (cases fo; cases lo; cases bo) (auto simp: etin_def Let_def split_beta)

lemma etin_supplied:
  "etin U G (Some f) (Some l) (Some d) g = (etin_of U f l d, g)"
  by (simp add: etin_def)

subsection \<open>The worked example\<close>

text \<open>
  C3. For the last name \<open>M\<close> U+00FC \<open>ller\<close>, the first name \<open>Hans\<close> and the birth date
  1987-03-05, under any Unicode data that decomposes U+00FC into \<open>u\<close> and the combining
  diaeresis: normalisation gives \<open>Muller\<close>, the quartets are \<open>MLLR\<close> and \<open>HNSA\<close>, the stub
  is \<open>MLLRHNSA87C05\<close>, and \<open>etin\<close> returns the stub followed by its check character,
  which is \<open>K\<close>.
\<close>

theorem etin_muller_hans:
  assumes "nfkd U muller = [77, 117, 776, 108, 108, 101, 114]"
    and "nfkd U (ustr ''Hans'') = ustr ''Hans''"
    and "combining U 776 \<noteq> 0"
    and "\<forall>c < 128. combining U c = 0"
  shows "normalize_name U muller = ustr ''Muller''
    \<and> etin_name_quartet U muller = ustr ''MLLR''
    \<and> etin_name_quartet U (ustr ''Hans'') = ustr ''HNSA''
    \<and> etin_stub U (ustr ''Hans'') muller \<lparr>year = 1987, month = 3, day = 5\<rparr>
        = Inr (ustr ''MLLRHNSA87C05'')
    \<and> etin_check_character (ustr ''MLLRHNSA87C05'') = Inr (ustr ''K'')
    \<and> etin U G (Some (ustr ''Hans'')) (Some muller) (Some \<lparr>year = 1987, month = 3, day = 5\<rparr>) g
        = (Inr (ustr ''MLLRHNSA87C05'' @ ustr ''K''), g)"
proof -
  have n1: "normalize_name U muller = ustr ''Muller''"
    using assms by (simp add: normalize_name_def ustr_def)
  have n2: "normalize_name U (ustr ''Hans'') = ustr ''Hans''"
    using assms(2,4) by (simp add: normalize_name_def ustr_def)
  have q1: "etin_name_quartet U muller = ustr ''MLLR''"
    by (simp add: etin_name_quartet_def n1 strip_prefixes_id)
       (simp add: ustr_def upper_def upper_char_def is_AZ_def is_AEIOU_def ljust_def Let_def)
  have q2: "etin_name_quartet U (ustr ''Hans'') = ustr ''HNSA''"
    by (simp add: etin_name_quartet_def n2 strip_prefixes_id)
       (simp add: ustr_def upper_def upper_char_def is_AZ_def is_AEIOU_def ljust_def Let_def)
  have st: "etin_stub U (ustr ''Hans'') muller \<lparr>year = 1987, month = 3, day = 5\<rparr>
        = Inr (ustr ''MLLRHNSA87C05'')"
    by (simp add: etin_stub_def q1 q2 MONTH_LETTER_def str_int_def last2_def rjust_def
        digits.simps Let_def)
       (simp add: ustr_def upper_def upper_char_def)
  have ck: "etin_check_character (ustr ''MLLRHNSA87C05'') = Inr (ustr ''K'')"
    by (simp add: etin_check_character_def etin_check_weight_def even_table_def odd_table_def
        table_of_def ascii_uppercase_def ustr_def Let_def)
  have "etin U G (Some (ustr ''Hans'')) (Some muller) (Some \<lparr>year = 1987, month = 3, day = 5\<rparr>) g
        = (Inr (ustr ''MLLRHNSA87C05'' @ ustr ''K''), g)"
    by (simp add: etin_supplied etin_of_def st ck)
  with n1 q1 q2 st ck show ?thesis by blast
qed


theorem etin_muller_hans_witness:
  "nfkd ucd_fragment muller = [77, 117, 776, 108, 108, 101, 114]
   \<and> nfkd ucd_fragment (ustr ''Hans'') = ustr ''Hans''
   \<and> combining ucd_fragment 776 \<noteq> 0
   \<and> etin_name_quartet ucd_fragment muller = ustr ''MLLR''
   \<and> etin_name_quartet ucd_fragment (ustr ''Hans'') = ustr ''HNSA''
   \<and> etin ucd_fragment sample_generator (Some (ustr ''Hans'')) (Some muller)
         (Some \<lparr>year = 1987, month = 3, day = 5\<rparr>) 0
        = (Inr (ustr ''MLLRHNSA87C05'' @ ustr ''K''), 0)"
proof -
  have h1: "nfkd ucd_fragment muller = [77, 117, 776, 108, 108, 101, 114]"
    by (simp add: ucd_fragment_def muller_def)
  have h2: "nfkd ucd_fragment (ustr ''Hans'') = ustr ''Hans''"
    by (simp add: ucd_fragment_def ustr_def)
  have h3: "combining ucd_fragment 776 \<noteq> 0"
    by (simp add: ucd_fragment_def)
  have h4: "\<forall>c < 128. combining ucd_fragment c = 0"
    by (simp add: ucd_fragment_def)
  from etin_muller_hans [OF h1 h2 h3 h4, of sample_generator 0] h1 h2 h3 show ?thesis
    by blast
qed

subsection \<open>Evaluations used by the examples\<close>

lemma normalize_fragment_muller: "normalize_name ucd_fragment muller = ustr ''Muller''"
  by (simp add: normalize_name_def ucd_fragment_def muller_def ustr_def)

lemma normalize_fragment_hans: "normalize_name ucd_fragment (ustr ''Hans'') = ustr ''Hans''"
  by (simp add: normalize_name_def ucd_fragment_def ustr_def)

lemma quartet_fragment_muller: "etin_name_quartet ucd_fragment muller = ustr ''MLLR''"
  by (simp add: etin_name_quartet_def normalize_fragment_muller strip_prefixes_id)
     (simp add: ustr_def upper_def upper_char_def is_AZ_def is_AEIOU_def ljust_def Let_def)

lemma quartet_fragment_hans: "etin_name_quartet ucd_fragment (ustr ''Hans'') = ustr ''HNSA''"
  by (simp add: etin_name_quartet_def normalize_fragment_hans strip_prefixes_id)
     (simp add: ustr_def upper_def upper_char_def is_AZ_def is_AEIOU_def ljust_def Let_def)


lemma stub_example_1987:
  "etin_stub ucd_fragment (ustr ''Hans'') muller \<lparr>year = 1987, month = 3, day = 5\<rparr>
     = Inr (ustr ''MLLRHNSA87C05'')"
  by (simp add: etin_stub_def quartet_fragment_muller quartet_fragment_hans MONTH_LETTER_def
        str_int_def last2_def rjust_def digits.simps Let_def)
     (simp add: ustr_def upper_def upper_char_def)

lemma stub_example_year_5:
  "etin_stub ucd_fragment (ustr ''Hans'') muller \<lparr>year = 5, month = 3, day = 5\<rparr>
     = Inr (ustr ''MLLRHNSA5C05'')"
  by (simp add: etin_stub_def quartet_fragment_muller quartet_fragment_hans MONTH_LETTER_def
        str_int_def last2_def rjust_def digits.simps Let_def)
     (simp add: ustr_def upper_def upper_char_def)

lemma check_example_1987: "etin_check_character (ustr ''MLLRHNSA87C05'') = Inr (ustr ''K'')"
  by (simp add: etin_check_character_def etin_check_weight_def even_table_def odd_table_def
        table_of_def ascii_uppercase_def ustr_def Let_def)

lemma check_example_year_5: "etin_check_character (ustr ''MLLRHNSA5C05'') = Inr (ustr ''A'')"
  by (simp add: etin_check_character_def etin_check_weight_def even_table_def odd_table_def
        table_of_def ascii_uppercase_def ustr_def Let_def)

lemma etin_of_example_1987:
  "etin_of ucd_fragment (ustr ''Hans'') muller \<lparr>year = 1987, month = 3, day = 5\<rparr>
     = Inr (ustr ''MLLRHNSA87C05K'')"
  by (simp add: etin_of_def stub_example_1987 check_example_1987) (simp add: ustr_def)

lemma etin_of_example_year_5:
  "etin_of ucd_fragment (ustr ''Hans'') muller \<lparr>year = 5, month = 3, day = 5\<rparr>
     = Inr (ustr ''MLLRHNSA5C05A'')"
  by (simp add: etin_of_def stub_example_year_5 check_example_year_5) (simp add: ustr_def)

subsection \<open>The claims about \<open>etin\<close>\<close>

text \<open>
  C4. Whatever \<open>etin\<close> returns, with supplied or generated arguments: dropping the
  last character of the result and computing the check character of what remains gives
  that last character back. And \<open>etin\<close> does return a result for every birth date
  whose fields are in the ranges of a calendar date.
\<close>

theorem etin_round_trip:
  "(fst (etin U G fo lo bo g) = Inr e \<longrightarrow> etin_check_character (butlast e) = Inr [last e])
   \<and> (date_fields_ok d \<longrightarrow> (\<exists>e'. fst (etin U G fo lo (Some d) g) = Inr e'))"
proof (intro conjI impI)
  assume a: "fst (etin U G fo lo bo g) = Inr e"
  from etin_cases [of U G fo lo bo g] obtain fn ln bd where
    "fst (etin U G fo lo bo g) = etin_of U fn ln bd" by blast
  with a have "etin_of U fn ln bd = Inr e" by simp
  then show "etin_check_character (butlast e) = Inr [last e]"
    by (rule etin_of_round_trip)
next
  assume ok: "date_fields_ok d"
  from etin_cases [of U G fo lo "Some d" g] obtain fn ln where
    eq: "fst (etin U G fo lo (Some d) g) = etin_of U fn ln d" by auto
  from ok have "1 \<le> month d" "month d \<le> 12" "0 \<le> year d" "0 \<le> day d"
    by (simp_all add: date_fields_ok_def)
  from etin_of_value [OF this, of U fn ln] eq
  show "\<exists>e'. fst (etin U G fo lo (Some d) g) = Inr e'"
    by auto
qed

theorem etin_round_trip_witness:
  "fst (etin ucd_fragment sample_generator (Some (ustr ''Hans'')) (Some muller)
          (Some \<lparr>year = 1987, month = 3, day = 5\<rparr>) 0) = Inr (ustr ''MLLRHNSA87C05K'')
   \<and> etin_check_character (butlast (ustr ''MLLRHNSA87C05K''))
        = Inr [last (ustr ''MLLRHNSA87C05K'')]
   \<and> date_fields_ok \<lparr>year = 1987, month = 3, day = 5\<rparr>
   \<and> (\<exists>e'. fst (etin ucd_fragment sample_generator None None
                 (Some \<lparr>year = 1987, month = 3, day = 5\<rparr>) 0) = Inr e')"
proof -
  have v: "fst (etin ucd_fragment sample_generator (Some (ustr ''Hans'')) (Some muller)
          (Some \<lparr>year = 1987, month = 3, day = 5\<rparr>) 0) = Inr (ustr ''MLLRHNSA87C05K'')"
    by (simp add: etin_supplied etin_of_example_1987)
  have ok: "date_fields_ok \<lparr>year = 1987, month = 3, day = 5\<rparr>"
    by (simp add: date_fields_ok_def)
  from etin_round_trip [of ucd_fragment sample_generator "Some (ustr ''Hans'')" "Some muller"
      "Some \<lparr>year = 1987, month = 3, day = 5\<rparr>" 0 "ustr ''MLLRHNSA87C05K''"] v
  have rt: "etin_check_character (butlast (ustr ''MLLRHNSA87C05K''))
        = Inr [last (ustr ''MLLRHNSA87C05K'')]"
    by blast
  from etin_round_trip [of ucd_fragment sample_generator None None None 0 "[]"
      "\<lparr>year = 1987, month = 3, day = 5\<rparr>"] ok
  have "\<exists>e'. fst (etin ucd_fragment sample_generator None None
                 (Some \<lparr>year = 1987, month = 3, day = 5\<rparr>) 0) = Inr e'"
    by blast
  with v rt ok show ?thesis by blast
qed

lemma etin_cases_names:
  "\<exists>fn ln. fst (etin U G fo lo (Some d) g) = etin_of U fn ln d
      \<and> (\<forall>f. fo = Some f \<longrightarrow> fn = f) \<and> (\<forall>l. lo = Some l \<longrightarrow> ln = l)"
  by (cases fo; cases lo) (auto simp: etin_def Let_def split_beta)

lemma month_letter_nth:
  assumes "1 \<le> m" and "m \<le> 12"
  shows "ascii_uppercase ! nat (m - 1) = nat (64 + m)"
proof -
  from assms have "nat (m - 1) < 26" by linarith
  then have "ascii_uppercase ! nat (m - 1) = 65 + nat (m - 1)"
    by (rule ascii_uppercase_nth)
  also have "\<dots> = nat (64 + m)" using assms by linarith
  finally show ?thesis .
qed

text \<open>
  C7. A month \<open>m\<close> from 1 to 12 is encoded as the \<open>m\<close>-th letter of the alphabet
  (\<open>A\<close> for 1, ..., \<open>L\<close> for 12): that letter is placed in the stub after the year,
  and, when the year and the day are not negative, \<open>etin\<close> returns a result made of the
  two quartets, the year part, that letter, the day and one check character, so the
  character right after the year part of the result is the \<open>m\<close>-th letter.
  A month outside 1..12 is not in the table: the lookup raises \<open>KeyError\<close> and the call
  of \<open>etin\<close> fails with it; no letter is substituted.
\<close>

theorem etin_month:
  "(1 \<le> month d \<and> month d \<le> 12 \<longrightarrow>
      MONTH_LETTER (month d) = Some [ascii_uppercase ! nat (month d - 1)]
      \<and> etin_stub U f l d =
          Inr (etin_name_quartet U l @ etin_name_quartet U f @ last2 (str_int (year d))
               @ [ascii_uppercase ! nat (month d - 1)] @ rjust 2 48 (str_int (day d))))
   \<and> (1 \<le> month d \<and> month d \<le> 12 \<and> 0 \<le> year d \<and> 0 \<le> day d \<longrightarrow>
      (\<exists>fn ln c e.
          fst (etin U G fo lo (Some d) g) = Inr e
          \<and> e = etin_name_quartet U ln @ etin_name_quartet U fn @ last2 (str_int (year d))
               @ [ascii_uppercase ! nat (month d - 1)] @ rjust 2 48 (str_int (day d)) @ [c]
          \<and> e ! (8 + length (last2 (str_int (year d)))) = ascii_uppercase ! nat (month d - 1)
          \<and> (\<forall>x. fo = Some x \<longrightarrow> fn = x) \<and> (\<forall>x. lo = Some x \<longrightarrow> ln = x)))
   \<and> (month d < 1 \<or> 12 < month d \<longrightarrow>
      MONTH_LETTER (month d) = None
      \<and> fst (etin U G fo lo (Some d) g) = Inl KeyError)"
proof (intro conjI impI)
  assume a: "1 \<le> month d \<and> month d \<le> 12"
  then have l: "ascii_uppercase ! nat (month d - 1) = nat (64 + month d)"
    by (simp add: month_letter_nth)
  from a show "MONTH_LETTER (month d) = Some [ascii_uppercase ! nat (month d - 1)]"
    by (simp add: l MONTH_LETTER_in_range)
  from a show "etin_stub U f l d =
          Inr (etin_name_quartet U l @ etin_name_quartet U f @ last2 (str_int (year d))
               @ [ascii_uppercase ! nat (month d - 1)] @ rjust 2 48 (str_int (day d)))"
    by (simp add: l etin_stub_value)
next
  assume a: "1 \<le> month d \<and> month d \<le> 12 \<and> 0 \<le> year d \<and> 0 \<le> day d"
  then have r: "1 \<le> month d" "month d \<le> 12" "0 \<le> year d" "0 \<le> day d"
    by simp_all
  have l: "ascii_uppercase ! nat (month d - 1) = nat (64 + month d)"
    using r(1,2) by (rule month_letter_nth)
  from etin_cases_names [of U G fo lo d g] obtain fn ln where
    eq: "fst (etin U G fo lo (Some d) g) = etin_of U fn ln d"
    and names: "\<forall>x. fo = Some x \<longrightarrow> fn = x" "\<forall>x. lo = Some x \<longrightarrow> ln = x"
    by blast
  from etin_of_value [OF r, of U fn ln] obtain k where
    v: "etin_of U fn ln d =
     Inr (etin_name_quartet U ln @ etin_name_quartet U fn @ last2 (digits (nat (year d)))
          @ [nat (64 + month d)] @ rjust 2 48 (digits (nat (day d))) @ [65 + k])"
    by blast
  let ?yy = "last2 (str_int (year d))"
  let ?e = "etin_name_quartet U ln @ etin_name_quartet U fn @ ?yy
               @ [ascii_uppercase ! nat (month d - 1)] @ rjust 2 48 (str_int (day d)) @ [65 + k]"
  have res: "fst (etin U G fo lo (Some d) g) = Inr ?e"
    using eq v r(3,4) by (simp add: l str_int_nonneg)
  have "?e = (etin_name_quartet U ln @ etin_name_quartet U fn @ ?yy)
               @ ascii_uppercase ! nat (month d - 1) # (rjust 2 48 (str_int (day d)) @ [65 + k])"
    by simp
  moreover have "length (etin_name_quartet U ln @ etin_name_quartet U fn @ ?yy)
      = 8 + length ?yy"
    by (simp add: quartet_length)
  ultimately have idx: "?e ! (8 + length ?yy) = ascii_uppercase ! nat (month d - 1)"
    by (metis nth_append_length)
  from res idx names
  show "\<exists>fn ln c e.
          fst (etin U G fo lo (Some d) g) = Inr e
          \<and> e = etin_name_quartet U ln @ etin_name_quartet U fn @ last2 (str_int (year d))
               @ [ascii_uppercase ! nat (month d - 1)] @ rjust 2 48 (str_int (day d)) @ [c]
          \<and> e ! (8 + length (last2 (str_int (year d)))) = ascii_uppercase ! nat (month d - 1)
          \<and> (\<forall>x. fo = Some x \<longrightarrow> fn = x) \<and> (\<forall>x. lo = Some x \<longrightarrow> ln = x)"
    by blast
next
  assume a: "month d < 1 \<or> 12 < month d"
  then show "MONTH_LETTER (month d) = None"
    by (rule MONTH_LETTER_out_of_range)
  from etin_cases [of U G fo lo "Some d" g] obtain fn ln where
    eq: "fst (etin U G fo lo (Some d) g) = etin_of U fn ln d" by auto
  from a show "fst (etin U G fo lo (Some d) g) = Inl KeyError"
    by (simp add: eq etin_of_def etin_stub_KeyError)
qed

theorem etin_month_witness:
  "MONTH_LETTER 3 = Some (ustr ''C'')
   \<and> MONTH_LETTER 12 = Some (ustr ''L'')
   \<and> (\<exists>e. fst (etin ucd_fragment sample_generator (Some (ustr ''Hans'')) (Some muller)
               (Some \<lparr>year = 1987, month = 3, day = 5\<rparr>) 0) = Inr e
          \<and> e ! 10 = 67)
   \<and> fst (etin ucd_fragment sample_generator (Some (ustr ''Hans'')) (Some muller)
          (Some \<lparr>year = 1987, month = 13, day = 5\<rparr>) 0) = Inl KeyError
   \<and> fst (etin ucd_fragment sample_generator None None
          (Some \<lparr>year = 1987, month = 0, day = 5\<rparr>) 0) = Inl KeyError"
proof -
  have l: "ascii_uppercase ! 2 = 67" "ascii_uppercase ! 11 = 76"
    by (simp_all add: ascii_uppercase_def ustr_def)
  have yy: "length (last2 (str_int 1987)) = 2"
    by (simp add: str_int_def last2_def digits.simps)
  from etin_month [of "\<lparr>year = 1987, month = 3, day = 5\<rparr>" ucd_fragment
      "ustr ''Hans''" muller sample_generator "Some (ustr ''Hans'')" "Some muller" 0]
  have m3: "MONTH_LETTER 3 = Some (ustr ''C'')"
    by (simp add: l ustr_def)
  from etin_month [of "\<lparr>year = 1987, month = 12, day = 5\<rparr>" ucd_fragment
      "ustr ''Hans''" muller sample_generator "Some (ustr ''Hans'')" "Some muller" 0]
  have m12: "MONTH_LETTER 12 = Some (ustr ''L'')"
    by (simp add: l ustr_def)
  have rng: "1 \<le> month \<lparr>year = 1987, month = 3, day = 5\<rparr>
      \<and> month \<lparr>year = 1987, month = 3, day = 5\<rparr> \<le> 12
      \<and> 0 \<le> year \<lparr>year = 1987, month = 3, day = 5\<rparr>
      \<and> 0 \<le> day \<lparr>year = 1987, month = 3, day = 5\<rparr>"
    by simp
  from etin_month [of "\<lparr>year = 1987, month = 3, day = 5\<rparr>" ucd_fragment
      "ustr ''Hans''" muller sample_generator "Some (ustr ''Hans'')" "Some muller" 0] rng
  obtain e where
    e: "fst (etin ucd_fragment sample_generator (Some (ustr ''Hans'')) (Some muller)
               (Some \<lparr>year = 1987, month = 3, day = 5\<rparr>) 0) = Inr e"
    and i: "e ! (8 + length (last2 (str_int (year \<lparr>year = 1987, month = 3, day = 5\<rparr>))))
          = ascii_uppercase ! nat (month \<lparr>year = 1987, month = 3, day = 5\<rparr> - 1)"
    by blast
  from i have "e ! 10 = 67"
    by (simp add: yy l)
  with e have ex: "\<exists>e. fst (etin ucd_fragment sample_generator (Some (ustr ''Hans''))
               (Some muller) (Some \<lparr>year = 1987, month = 3, day = 5\<rparr>) 0) = Inr e
          \<and> e ! 10 = 67"
    by blast
  from etin_month [of "\<lparr>year = 1987, month = 13, day = 5\<rparr>" ucd_fragment
      "ustr ''Hans''" muller sample_generator "Some (ustr ''Hans'')" "Some muller" 0]
  have m13: "fst (etin ucd_fragment sample_generator (Some (ustr ''Hans'')) (Some muller)
          (Some \<lparr>year = 1987, month = 13, day = 5\<rparr>) 0) = Inl KeyError"
    by simp
  from etin_month [of "\<lparr>year = 1987, month = 0, day = 5\<rparr>" ucd_fragment
      "ustr ''Hans''" muller sample_generator None None 0]
  have m0: "fst (etin ucd_fragment sample_generator None None
          (Some \<lparr>year = 1987, month = 0, day = 5\<rparr>) 0) = Inl KeyError"
    by simp
  from m3 m12 ex m13 m0 show ?thesis by blast
qed

text \<open>
  C8. With the three arguments supplied, \<open>etin\<close> is a function of them alone: the result
  is the same under any generator and any random state, and the random state comes back
  unchanged, so no collaborator was called. A collaborator is called exactly for an
  omitted argument.
\<close>

theorem etin_deterministic:
  "etin U G (Some f) (Some l) (Some d) g = (etin_of U f l d, g)
   \<and> fst (etin U G (Some f) (Some l) (Some d) g) = fst (etin U G' (Some f) (Some l) (Some d) g')
   \<and> etin U G None (Some l) (Some d) g
       = (etin_of U (fst (gen_first_name G g)) l d, snd (gen_first_name G g))
   \<and> etin U G (Some f) None (Some d) g
       = (etin_of U f (fst (gen_last_name G g)) d, snd (gen_last_name G g))
   \<and> etin U G (Some f) (Some l) None g
       = (etin_of U f l (fst (gen_date_of_birth G g)), snd (gen_date_of_birth G g))"
  by (simp add: etin_def split_beta)

text \<open>
  C10. For a supplied birth date with fields in calendar range: when the year is below 10,
  the year part of the stub is a single character and the result has 13 characters; when
  the year is 10 or more, the year part has two characters and the result has 14.
\<close>

theorem etin_single_digit_year:
  assumes "date_fields_ok d"
  shows "(year d \<le> 9 \<longrightarrow>
            length (last2 (str_int (year d))) = 1
            \<and> (\<exists>e. fst (etin U G fo lo (Some d) g) = Inr e \<and> length e = 13))
       \<and> (10 \<le> year d \<longrightarrow>
            length (last2 (str_int (year d))) = 2
            \<and> (\<exists>e. fst (etin U G fo lo (Some d) g) = Inr e \<and> length e = 14))"
proof -
  from etin_cases [of U G fo lo "Some d" g] obtain fn ln where
    eq: "fst (etin U G fo lo (Some d) g) = etin_of U fn ln d" by auto
  from assms have r: "1 \<le> month d" "month d \<le> 12" "0 \<le> year d" "0 \<le> day d"
    by (simp_all add: date_fields_ok_def)
  from etin_of_value [OF r, of U fn ln] obtain k where
    e: "etin_of U fn ln d =
     Inr (etin_name_quartet U ln @ etin_name_quartet U fn @ last2 (digits (nat (year d)))
          @ [nat (64 + month d)] @ rjust 2 48 (digits (nat (day d))) @ [65 + k])"
    by blast
  have dd: "length (rjust 2 48 (digits (nat (day d)))) = 2"
  proof (cases "day d < 10")
    case True
    then have "nat (day d) < 10" by simp
    then show ?thesis by (simp add: rjust_def digits_length_lt10)
  next
    case False
    with assms have "10 \<le> nat (day d)" "nat (day d) < 100"
      unfolding date_fields_ok_def by linarith+
    then show ?thesis by (simp add: rjust_def digits_length_lt100)
  qed
  have y1: "length (last2 (digits (nat (year d)))) = 1" if "year d \<le> 9"
  proof -
    from that have "nat (year d) < 10" by simp
    then show ?thesis by (simp add: digits_length_lt10 last2_def)
  qed
  have y2: "length (last2 (digits (nat (year d)))) = 2" if "10 \<le> year d"
  proof -
    from that have "10 \<le> nat (year d)" by simp
    then show ?thesis by (simp add: digits_length_ge10 last2_length)
  qed
  from r(3) have s: "str_int (year d) = digits (nat (year d))" by (rule str_int_nonneg)
  show ?thesis
    using y1 y2 dd by (auto simp: eq e s quartet_length)
qed


theorem etin_single_digit_year_witness:
  "date_fields_ok \<lparr>year = 5, month = 3, day = 5\<rparr>
   \<and> length (last2 (str_int 5)) = 1
   \<and> (\<exists>e. fst (etin ucd_fragment sample_generator (Some (ustr ''Hans'')) (Some muller)
               (Some \<lparr>year = 5, month = 3, day = 5\<rparr>) 0) = Inr e \<and> length e = 13)
   \<and> date_fields_ok \<lparr>year = 1987, month = 3, day = 5\<rparr>
   \<and> (\<exists>e. fst (etin ucd_fragment sample_generator (Some (ustr ''Hans'')) (Some muller)
               (Some \<lparr>year = 1987, month = 3, day = 5\<rparr>) 0) = Inr e \<and> length e = 14)"
proof -
  have ok5: "date_fields_ok \<lparr>year = 5, month = 3, day = 5\<rparr>"
    by (simp add: date_fields_ok_def)
  have ok1987: "date_fields_ok \<lparr>year = 1987, month = 3, day = 5\<rparr>"
    by (simp add: date_fields_ok_def)
  from etin_single_digit_year [OF ok5, of ucd_fragment sample_generator
      "Some (ustr ''Hans'')" "Some muller" 0]
  have a: "length (last2 (str_int 5)) = 1"
    and b: "\<exists>e. fst (etin ucd_fragment sample_generator (Some (ustr ''Hans'')) (Some muller)
               (Some \<lparr>year = 5, month = 3, day = 5\<rparr>) 0) = Inr e \<and> length e = 13"
    by simp_all
  from etin_single_digit_year [OF ok1987, of ucd_fragment sample_generator
      "Some (ustr ''Hans'')" "Some muller" 0]
  have c: "\<exists>e. fst (etin ucd_fragment sample_generator (Some (ustr ''Hans'')) (Some muller)
               (Some \<lparr>year = 1987, month = 3, day = 5\<rparr>) 0) = Inr e \<and> length e = 14"
    by simp
  from ok5 a b ok1987 c show ?thesis by blast
qed

text \<open>
  C5, at the birth date 0005-03-05: the result is \<open>MLLRHNSA5C05A\<close>, which has 13
  characters, and its ninth and tenth characters are \<open>5\<close> and \<open>C\<close>, not two digits.
\<close>

theorem etin_year_5_has_13_characters:
  "etin ucd_fragment sample_generator (Some (ustr ''Hans'')) (Some muller)
       (Some \<lparr>year = 5, month = 3, day = 5\<rparr>) 0 = (Inr (ustr ''MLLRHNSA5C05A''), 0)
   \<and> length (ustr ''MLLRHNSA5C05A'') = 13
   \<and> date_fields_ok \<lparr>year = 5, month = 3, day = 5\<rparr>
   \<and> \<not> is_digit (ustr ''MLLRHNSA5C05A'' ! 9)"
  by (simp add: etin_supplied etin_of_example_year_5 date_fields_ok_def)
     (simp add: ustr_def is_digit_def)

section \<open>The prefix loop of the quartet\<close>

lemma quartet_no_strip_eq: "etin_name_quartet U name = etin_name_quartet_no_strip U name"
  by (simp add: etin_name_quartet_def etin_name_quartet_no_strip_def strip_prefixes_id)

lemma upper_append: "upper U (xs @ ys) = upper U xs @ upper U ys"
  by (simp add: upper_def)

lemma prefix_letters:
  "p \<in> set prefixes \<Longrightarrow> filter is_AZ (upper U p) \<in> {ustr ''DE'', ustr ''VON'', ustr ''ZU''}"
  by (auto simp: prefixes_def ustr_def upper_def upper_char_def is_AZ_def)

text \<open>
  C6. The loop over the prefixes \<open>de\<close>, \<open>von\<close>, \<open>zu\<close> changes nothing: for every name the
  quartet is the one computed by the pipeline without that loop. So when the name, after
  normalisation and the \<open>Sch\<close> substitution, starts with one of the prefixes, the
  letters of the prefix (\<open>DE\<close>, \<open>VON\<close> or \<open>ZU\<close>) head the letters the quartet is built from.
\<close>

theorem prefix_stripping_no_effect:
  "etin_name_quartet U name = etin_name_quartet_no_strip U name
   \<and> (\<forall>p rest. p \<in> set prefixes
          \<and> replace_py (ustr ''Sch'') (ustr ''Y'') (normalize_name U name) = p @ rest
        \<longrightarrow> name_letters U name = filter is_AZ (upper U p) @ filter is_AZ (upper U rest)
            \<and> filter is_AZ (upper U p) \<in> {ustr ''DE'', ustr ''VON'', ustr ''ZU''})"
  by (auto simp: quartet_no_strip_eq name_letters_def upper_append dest: prefix_letters)

lemma normalize_fragment_de_boer:
  "normalize_name ucd_fragment (ustr ''de Boer'') = ustr ''de Boer''"
  by (simp add: normalize_name_def ucd_fragment_def ustr_def)

lemma quartet_de_boer: "etin_name_quartet ucd_fragment (ustr ''de Boer'') = ustr ''DBRE''"
  by (simp add: etin_name_quartet_def normalize_fragment_de_boer strip_prefixes_id)
     (simp add: ustr_def upper_def upper_char_def is_AZ_def is_AEIOU_def ljust_def Let_def)

lemma quartet_stripping_de_boer:
  "etin_name_quartet_stripping ucd_fragment (ustr ''de Boer'') = ustr ''BREO''"
  by (simp add: etin_name_quartet_stripping_def normalize_fragment_de_boer prefixes_def)
     (simp add: ustr_def upper_def upper_char_def is_AZ_def is_AEIOU_def ljust_def Let_def)

lemma sch_de_boer:
  "replace_py (ustr ''Sch'') (ustr ''Y'') (normalize_name ucd_fragment (ustr ''de Boer''))
     = ustr ''de '' @ ustr ''Boer''"
  by (simp add: normalize_fragment_de_boer) (simp add: ustr_def)

theorem prefix_stripping_no_effect_witness:
  "ustr ''de '' \<in> set prefixes
   \<and> replace_py (ustr ''Sch'') (ustr ''Y'') (normalize_name ucd_fragment (ustr ''de Boer''))
        = ustr ''de '' @ ustr ''Boer''
   \<and> name_letters ucd_fragment (ustr ''de Boer'')
        = filter is_AZ (upper ucd_fragment (ustr ''de ''))
          @ filter is_AZ (upper ucd_fragment (ustr ''Boer''))
   \<and> etin_name_quartet_no_strip ucd_fragment (ustr ''de Boer'') = ustr ''DBRE''
   \<and> etin_name_quartet_stripping ucd_fragment (ustr ''de Boer'') = ustr ''BREO''"
proof -
  have p: "ustr ''de '' \<in> set prefixes"
    by (simp add: prefixes_def)
  note spec = prefix_stripping_no_effect [of ucd_fragment "ustr ''de Boer''"]
  from spec have "etin_name_quartet_no_strip ucd_fragment (ustr ''de Boer'') = ustr ''DBRE''"
    by (simp add: quartet_de_boer)
  moreover from spec p sch_de_boer
  have "name_letters ucd_fragment (ustr ''de Boer'')
        = filter is_AZ (upper ucd_fragment (ustr ''de ''))
          @ filter is_AZ (upper ucd_fragment (ustr ''Boer''))"
    by blast
  ultimately show ?thesis
    using p sch_de_boer quartet_stripping_de_boer by blast
qed

section \<open>Properties of the VAT identifier\<close>

lemma bothify_hashes:
  assumes "provider_ok P"
  shows "\<exists>ds. length ds = n \<and> (\<forall>d \<in> set ds. d < 10)
           \<and> fst (bothify P (replicate n 35) g) = map (\<lambda>d. 48 + d) ds"
proof (induction n arbitrary: g)
  case 0
  then show ?case by simp
next
  case (Suc n)
  obtain d g1 where d: "random_digit P g = (d, g1)"
    by (cases "random_digit P g")
  with assms have "d < 10"
    by (metis fst_conv provider_ok_def)
  from Suc.IH [of g1] obtain ds where
    ds: "length ds = n" "\<forall>d \<in> set ds. d < 10"
      "fst (bothify P (replicate n 35) g1) = map (\<lambda>d. 48 + d) ds"
    by blast
  have "fst (bothify P (replicate (Suc n) 35) g) = map (\<lambda>d. 48 + d) (d # ds)"
    using d ds(3) by (simp add: split_beta)
  moreover have "length (d # ds) = Suc n" "\<forall>x \<in> set (d # ds). x < 10"
    using ds(1,2) \<open>d < 10\<close> by simp_all
  ultimately show ?case by blast
qed

lemma bothify_replay:
  "\<forall>d \<in> set ds. d < 10 \<Longrightarrow>
     bothify replay_provider (replicate (length ds) 35) ds = (map (\<lambda>d. 48 + d) ds, [])"
  by (induction ds) (simp_all add: replay_provider_def)

lemma format_hashes: "ustr ''DE#########'' = 68 # 69 # replicate 9 35"
  by (simp add: ustr_def eval_nat_numeral)

lemma random_index_one:
  assumes "provider_ok P"
  shows "fst (random_index P 1 g) = 0"
proof -
  from assms have "\<forall>n g. 0 < n \<longrightarrow> fst (random_index P n g) < n"
    by (simp add: provider_ok_def)
  then have "0 < (1::nat) \<longrightarrow> fst (random_index P 1 g) < 1"
    by (elim allE)
  then show ?thesis by simp
qed

lemma random_element_formats:
  assumes "provider_ok P"
  shows "random_element P vat_id_formats g = (ustr ''DE#########'', snd (random_index P 1 g))"
proof -
  have "length vat_id_formats = 1"
    by (simp add: vat_id_formats_def)
  moreover have "vat_id_formats ! 0 = ustr ''DE#########''"
    by (simp add: vat_id_formats_def)
  moreover note random_index_one [OF assms, of g]
  ultimately show ?thesis
    by (simp only: random_element_def Let_def split_beta)
qed

lemma bothify_literal:
  "c \<noteq> 35 \<Longrightarrow> bothify P (c # cs) g = (c # fst (bothify P cs g), snd (bothify P cs g))"
  by (simp add: split_beta)

lemma vat_id_value:
  assumes "provider_ok P"
  shows "fst (vat_id P g)
    = 68 # 69 # fst (bothify P (replicate 9 35) (snd (random_index P 1 g)))"
proof -
  have "vat_id P g = bothify P (68 # 69 # replicate 9 35) (snd (random_index P 1 g))"
    by (simp only: vat_id_def random_element_formats [OF assms] format_hashes Let_def
        prod.case)
  then show ?thesis
    by (simp only: bothify_literal fst_conv)
qed

lemma replay_provider_ok: "provider_ok replay_provider"
  by (auto simp: provider_ok_def replay_provider_def split: list.splits)

text \<open>
  C9. With a random source that yields decimal digits and indices in range, \<open>vat_id\<close>
  returns 11 characters: \<open>DE\<close> followed by 9 decimal digits. The digits are not tied to
  each other: for any 9 digits there is a random source under which \<open>vat_id\<close> returns
  \<open>DE\<close> followed by exactly these digits.
\<close>

theorem vat_id_format:
  "(provider_ok P \<longrightarrow>
      length (fst (vat_id P g)) = 11
      \<and> (\<exists>ds. length ds = 9 \<and> (\<forall>d \<in> set ds. d < 10)
              \<and> fst (vat_id P g) = ustr ''DE'' @ map (\<lambda>d. 48 + d) ds))
   \<and> (length ds = 9 \<and> (\<forall>d \<in> set ds. d < 10) \<longrightarrow>
        provider_ok replay_provider
        \<and> fst (vat_id replay_provider ds) = ustr ''DE'' @ map (\<lambda>d. 48 + d) ds)"
proof (intro conjI impI)
  assume ok: "provider_ok P"
  from bothify_hashes [OF ok, of 9 "snd (random_index P 1 g)"] obtain ds where
    ds: "length ds = 9" "\<forall>d \<in> set ds. d < 10"
      "fst (bothify P (replicate 9 35) (snd (random_index P 1 g))) = map (\<lambda>d. 48 + d) ds"
    by blast
  have v: "fst (vat_id P g) = ustr ''DE'' @ map (\<lambda>d. 48 + d) ds"
    using vat_id_value [OF ok, of g] ds(3) by (simp add: ustr_def)
  with ds(1) show "length (fst (vat_id P g)) = 11"
    by (simp add: ustr_def)
  from v ds(1,2) show "\<exists>ds. length ds = 9 \<and> (\<forall>d \<in> set ds. d < 10)
              \<and> fst (vat_id P g) = ustr ''DE'' @ map (\<lambda>d. 48 + d) ds"
    by blast
next
  show "provider_ok replay_provider"
    by (rule replay_provider_ok)
next
  assume a: "length ds = 9 \<and> (\<forall>d \<in> set ds. d < 10)"
  then have "bothify replay_provider (replicate 9 35) ds = (map (\<lambda>d. 48 + d) ds, [])"
    using bothify_replay [of ds] by simp
  moreover have "snd (random_index replay_provider 1 ds) = ds"
    by (simp add: replay_provider_def)
  ultimately show "fst (vat_id replay_provider ds) = ustr ''DE'' @ map (\<lambda>d. 48 + d) ds"
    using vat_id_value [OF replay_provider_ok, of ds] by (simp add: ustr_def)
qed

theorem vat_id_format_witness:
  "provider_ok replay_provider
   \<and> length (fst (vat_id replay_provider [1, 2, 3, 4, 5, 6, 7, 8, 9])) = 11
   \<and> fst (vat_id replay_provider [1, 2, 3, 4, 5, 6, 7, 8, 9]) = ustr ''DE123456789''"
proof -
  let ?ds = "[1, 2, 3, 4, 5, 6, 7, 8, 9] :: nat list"
  have ok: "provider_ok replay_provider"
    by (rule replay_provider_ok)
  have digits: "length ?ds = 9 \<and> (\<forall>d \<in> set ?ds. d < 10)"
    by simp
  note spec = vat_id_format [of replay_provider ?ds ?ds]
  from spec ok have a: "length (fst (vat_id replay_provider ?ds)) = 11"
    by blast
  from spec digits
  have "fst (vat_id replay_provider ?ds) = ustr ''DE'' @ map (\<lambda>d. 48 + d) ?ds"
    by blast
  moreover have "ustr ''DE'' @ map (\<lambda>d. 48 + d) ?ds = ustr ''DE123456789''"
    by (simp add: ustr_def)
  ultimately have b: "fst (vat_id replay_provider ?ds) = ustr ''DE123456789''"
    by (rule trans)
  from ok a b show ?thesis by blast
qed

end
